theory Spec2Isabelle
  imports Main "HOL-Library.Char_ord" "HOL-Library.List_Lexorder" "HOL-Library.Sublist"
    "HOL-Library.Multiset"
begin

section \<open>Go's \<open>path\<close> package, as wpm uses it\<close>

text \<open>
  Go strings are byte sequences; \<open>string\<close> (a list of \<open>char\<close>, one per byte) is the same
  data. \<open>sort.Strings\<close> compares bytewise, which is the lexicographic order on
  \<open>char list\<close> given by the imported order instances.

  \<open>path.Clean\<close> is transcribed from the standard library: \<open>clean_loop\<close> is its
  \<open>for r < n\<close> loop, the first argument the flag \<open>rooted\<close>, the second the unread
  part \<open>path[r:]\<close>, the third the output buffer \<open>out\<close> (whose length is \<open>out.w\<close>),
  the last the index \<open>dotdot\<close>.
\<close>

fun backtrack :: "string \<Rightarrow> nat \<Rightarrow> nat \<Rightarrow> nat" where
  "backtrack out dotdot w =
     (if w > dotdot \<and> out ! w \<noteq> CHR ''/'' then backtrack out dotdot (w - 1) else w)"

declare backtrack.simps [simp del]

function clean_loop :: "bool \<Rightarrow> string \<Rightarrow> string \<Rightarrow> nat \<Rightarrow> string" where
  "clean_loop rooted [] out dotdot = out"
| "clean_loop rooted (c # rest) out dotdot =
     (if c = CHR ''/'' then clean_loop rooted rest out dotdot
      else if c = CHR ''.'' \<and> (rest = [] \<or> hd rest = CHR ''/'')
        then clean_loop rooted rest out dotdot
      else if c = CHR ''.'' \<and> rest \<noteq> [] \<and> hd rest = CHR ''.''
              \<and> (tl rest = [] \<or> hd (tl rest) = CHR ''/'')
        then (if length out > dotdot
                then clean_loop rooted (tl rest)
                       (take (backtrack out dotdot (length out - 1)) out) dotdot
              else if \<not> rooted
                then clean_loop rooted (tl rest)
                       ((if length out > 0 then out @ ''/'' else out) @ ''..'')
                       (length ((if length out > 0 then out @ ''/'' else out) @ ''..''))
              else clean_loop rooted (tl rest) out dotdot)
      else clean_loop rooted (dropWhile (\<lambda>x. x \<noteq> CHR ''/'') rest)
             ((if rooted \<and> length out \<noteq> 1 \<or> \<not> rooted \<and> length out \<noteq> 0
                 then out @ ''/'' else out)
              @ c # takeWhile (\<lambda>x. x \<noteq> CHR ''/'') rest)
             dotdot)"
  by pat_completeness auto
termination
proof (relation "measure (\<lambda>(rooted, p, out, dotdot). length p)")
  show "wf (measure (\<lambda>(rooted, p, out, dotdot). length p))"
    by simp
qed (auto simp: le_imp_less_Suc length_dropWhile_le)

declare clean_loop.simps(2) [simp del]

definition Clean :: "string \<Rightarrow> string" where
  "Clean p =
     (if p = [] then ''.''
      else let rooted = (hd p = CHR ''/'');
               out = (if rooted then clean_loop True (tl p) ''/'' 1
                      else clean_loop False p [] 0)
           in if out = [] then ''.'' else out)"

text \<open>\<open>bytealg.LastIndexByteString\<close>: the index of the last \<open>c\<close>, or \<open>-1\<close>.\<close>

definition LastIndexByte :: "string \<Rightarrow> char \<Rightarrow> int" where
  "LastIndexByte s c =
     (if c \<in> set s
        then int (length s) - 1 - int (length (takeWhile (\<lambda>x. x \<noteq> c) (rev s)))
      else - 1)"

definition Split :: "string \<Rightarrow> string \<times> string" where
  "Split p = (let i = LastIndexByte p (CHR ''/'')
              in (take (nat (i + 1)) p, drop (nat (i + 1)) p))"

definition Dir :: "string \<Rightarrow> string" where
  "Dir p = Clean (fst (Split p))"

fun strings_Join :: "string list \<Rightarrow> string \<Rightarrow> string" where
  "strings_Join [] sep = []"
| "strings_Join [e] sep = e"
| "strings_Join (e # es) sep = e @ sep @ strings_Join es sep"

text \<open>\<open>path.Join\<close>: leading empty elements are dropped, the rest joined with slashes
  and cleaned; no non-empty element gives the empty string.\<close>

definition Join :: "string list \<Rightarrow> string" where
  "Join elem = (case dropWhile (\<lambda>e. e = []) elem of
                  [] \<Rightarrow> []
                | es \<Rightarrow> Clean (strings_Join es ''/''))"


section \<open>Data model\<close>

text \<open>
  One entry of \<open>zip.Reader.File\<close>. \<open>ModeDir\<close> says whether the header's external
  attributes mark a directory; \<open>Open\<close> is what \<open>f.Open()\<close> followed by
  \<open>ioutil.ReadAll\<close> delivers, \<open>None\<close> when \<open>f.Open()\<close> fails and hands back a nil
  reader.
\<close>

record zip_File =
  File_Name :: string
  ModeDir :: bool
  Open :: "string option"

text \<open>\<open>f.FileInfo().IsDir()\<close>: archive/zip also sets the directory bit for every name
  that ends in a slash.\<close>

definition IsDir :: "zip_File \<Rightarrow> bool" where
  "IsDir f = (ModeDir f \<or> (File_Name f \<noteq> [] \<and> last (File_Name f) = CHR ''/''))"

text \<open>\<open>zipData\<close> is a pointer: \<open>None\<close> is nil, \<open>Some fs\<close> a reader whose \<open>File\<close>
  slice is \<open>fs\<close>.\<close>

record Specification =
  Name :: string
  Type :: string
  Location :: string
  Branch :: string
  zipData :: "zip_File list option"
  ownDirs :: "string list"

text \<open>The implementations of the interface \<open>commiter\<close>. The reader of an
  \<open>fsWritefile\<close> is the result of \<open>f.Open()\<close>, so it may be nil.\<close>

datatype commiter =
    fsRmdir string
  | fsRm string
  | fsMkdir string
  | fsWritefile string "string option"
  | fsLink string string

text \<open>What a call does: it returns a value, panics (a nil dereference), or never
  returns.\<close>

datatype 'a run = Returns 'a | Panics | Diverges

text \<open>The effects of \<open>Download\<close> and \<open>PlanChanges\<close> other than on the specification:
  requests sent and lines printed (a \<open>Printf\<close> is recorded by its format string).\<close>

datatype event = HttpGet string | Print string

text \<open>
  The world outside the program: \<open>http_Get\<close> answers a URL with a response or fails
  (\<open>None\<close>); \<open>NewDocumentFromReader\<close> parses a response into a document or fails;
  \<open>first_href\<close> is \<open>None\<close> when the document has no
  \<open>tr.project-file-list-item\<close> row, and otherwise the \<open>href\<close> attribute of the
  first row's download button (empty when absent); \<open>zip_NewReader\<close> is the reader
  \<open>zip.NewReader\<close> returns for a response, nil (\<open>None\<close>) when it fails.
\<close>

record world =
  http_Get :: "string \<Rightarrow> string option"
  NewDocumentFromReader :: "string \<Rightarrow> string option"
  first_href :: "string \<Rightarrow> string option"
  zip_NewReader :: "string \<Rightarrow> zip_File list option"

text \<open>
  A Go map used as a set of strings is the list of its keys, without duplicates.
  \<open>range\<close> over a map visits the keys in an order the runtime chooses: the order is a
  parameter \<open>rng\<close> of every function that ranges over a map, and
  \<open>iteration_order rng\<close> says that it is an order of the keys.
\<close>

definition map_set :: "string list \<Rightarrow> string \<Rightarrow> string list" where
  "map_set dirs k = (if k \<in> set dirs then dirs else dirs @ [k])"

definition iteration_order :: "(string list \<Rightarrow> string list) \<Rightarrow> bool" where
  "iteration_order rng = (\<forall>ks. mset (rng ks) = mset ks)"

section \<open>Download\<close>

text \<open>The inner \<open>for\<close> loop of \<open>Download\<close>, which climbs from \<open>dir\<close> while
  \<open>path.Join(dir, "..")\<close> is not \<open>"."\<close>.\<close>

partial_function (option) topDir :: "string \<Rightarrow> string option" where
  "topDir dir = (if Join [dir, ''..''] = ''.'' then Some dir
                 else topDir (Join [dir, ''..'']))"

declare topDir.simps [code]

text \<open>The loop over \<open>sp.zipData.File\<close> that fills the map \<open>dirs\<close>.\<close>

fun collectDirs :: "zip_File list \<Rightarrow> string list \<Rightarrow> string list option" where
  "collectDirs [] dirs = Some dirs"
| "collectDirs (f # fs) dirs =
     (if File_Name f = ''.'' then collectDirs fs dirs
      else case topDir (fst (Split (File_Name f))) of
             None \<Rightarrow> None
           | Some dir \<Rightarrow> collectDirs fs (map_set dirs dir))"

definition index_url :: "Specification \<Rightarrow> string" where
  "index_url sp =
     (if Type sp = ''curse''
        then ''https://wow.curseforge.com/projects/'' @ Name sp @ ''/files''
      else if Type sp = ''wowace''
        then ''https://www.wowace.com/projects/'' @ Name sp @ ''/files''
      else [])"

definition site_prefix :: "Specification \<Rightarrow> string" where
  "site_prefix sp =
     (if Type sp = ''curse'' then ''https://wow.curseforge.com''
      else if Type sp = ''wowace'' then ''https://www.wowace.com''
      else [])"

text \<open>The function literal passed to \<open>Each\<close>: it returns to \<open>Download\<close> in every
  case, and the error of \<open>zip.NewReader\<close> is discarded.\<close>

definition fetch_zip :: "world \<Rightarrow> Specification \<Rightarrow> string \<Rightarrow> event list \<times> Specification" where
  "fetch_zip w sp href0 =
     (let href = site_prefix sp @ href0
      in case http_Get w href of
           None \<Rightarrow> ([HttpGet href, Print ''Error getting zip.''], sp)
         | Some r \<Rightarrow> ([HttpGet href], sp\<lparr>zipData := zip_NewReader w r\<rparr>))"

definition Download ::
  "(string list \<Rightarrow> string list) \<Rightarrow> world \<Rightarrow> Specification \<Rightarrow> event list \<times> Specification run" where
  "Download rng w sp =
     (if Type sp = ''curse'' \<or> Type sp = ''wowace'' then
        (let u = index_url sp in
         if u = [] then ([], Returns sp)
         else case http_Get w u of
           None \<Rightarrow> ([HttpGet u, Print ''Unable to get the index for %v: %v\<newline>''], Returns sp)
         | Some resp \<Rightarrow>
            (case NewDocumentFromReader w resp of
               None \<Rightarrow> ([HttpGet u,
                          Print ''Unable to parse the returned document into goquery: %v''],
                         Returns sp)
             | Some doc \<Rightarrow>
                (let (evs, sp1) = (case first_href w doc of
                                     None \<Rightarrow> ([], sp)
                                   | Some href \<Rightarrow> fetch_zip w sp href)
                 in case zipData sp1 of
                      None \<Rightarrow> (HttpGet u # evs, Panics)
                    | Some files \<Rightarrow>
                       (case collectDirs files [] of
                          None \<Rightarrow> (HttpGet u # evs, Diverges)
                        | Some dirs \<Rightarrow>
                           (HttpGet u # evs, Returns (sp1\<lparr>ownDirs := rng dirs\<rparr>))))))
      else if Type sp = ''ignore'' then ([], Returns (sp\<lparr>ownDirs := [Name sp]\<rparr>))
      else if Type sp = ''link'' then ([], Returns (sp\<lparr>ownDirs := [Name sp]\<rparr>))
      else ([], Returns sp))"

section \<open>PlanChanges\<close>

text \<open>The loop \<open>for pth != "."\<close>, which enters \<open>pth\<close> and each of its parents into
  the map \<open>dirs\<close>.\<close>

partial_function (option) parentDirs :: "string \<Rightarrow> string list \<Rightarrow> string list option" where
  "parentDirs pth dirs = (if pth \<noteq> ''.'' then parentDirs (Dir pth) (map_set dirs pth)
                          else Some dirs)"

declare parentDirs.simps [code]

fun allDirs :: "zip_File list \<Rightarrow> string list \<Rightarrow> string list option" where
  "allDirs [] dirs = Some dirs"
| "allDirs (f # fs) dirs =
     (case parentDirs (Dir (File_Name f)) dirs of
        None \<Rightarrow> None
      | Some dirs' \<Rightarrow> allDirs fs dirs')"

text \<open>\<open>dirSl\<close>: the keys of \<open>dirs\<close> in iteration order, then \<open>sort.Strings\<close>.\<close>

definition dirSl :: "(string list \<Rightarrow> string list) \<Rightarrow> zip_File list \<Rightarrow> string list option" where
  "dirSl rng files = map_option (\<lambda>dirs. sort (rng dirs)) (allDirs files [])"

fun rmdirs :: "string \<Rightarrow> string list \<Rightarrow> commiter list" where
  "rmdirs base [] = []"
| "rmdirs base (d # ds) = fsRmdir (Join [base, d]) # rmdirs base ds"

fun mkdirs :: "string \<Rightarrow> string list \<Rightarrow> commiter list" where
  "mkdirs base [] = []"
| "mkdirs base (s # ss) = fsMkdir (Join [base, s]) # mkdirs base ss"

fun writefiles :: "string \<Rightarrow> zip_File list \<Rightarrow> commiter list" where
  "writefiles base [] = []"
| "writefiles base (f # fs) =
     (if IsDir f then writefiles base fs
      else fsWritefile (Join [base, File_Name f]) (Open f) # writefiles base fs)"

definition PlanChanges ::
  "(string list \<Rightarrow> string list) \<Rightarrow> string \<Rightarrow> Specification \<Rightarrow> event list \<times> commiter list run" where
  "PlanChanges rng base sp =
     (if Type sp = ''curse'' \<or> Type sp = ''wowace'' then
        (case zipData sp of
           None \<Rightarrow> ([Print ''nil data''], Returns [])
         | Some files \<Rightarrow>
            (case dirSl rng files of
               None \<Rightarrow> ([], Diverges)
             | Some ds \<Rightarrow>
                ([], Returns (rmdirs base (ownDirs sp) @ mkdirs base ds @ writefiles base files))))
      else if Type sp = ''ignore'' then ([], Returns [])
      else if Type sp = ''link''
        then ([], Returns [fsRmdir (Join [base, Name sp]),
                           fsLink (Location sp) (Join [base, Name sp])])
      else ([], Returns []))"

section \<open>Committing a plan\<close>

text \<open>
  The operating system is a parameter: each call takes the file system to an error
  (\<open>None\<close> is Go's nil error) and a new file system.
\<close>

record 'fs os =
  os_RemoveAll :: "string \<Rightarrow> 'fs \<Rightarrow> string option \<times> 'fs"
  os_Remove :: "string \<Rightarrow> 'fs \<Rightarrow> string option \<times> 'fs"
  os_Mkdir :: "string \<Rightarrow> 'fs \<Rightarrow> string option \<times> 'fs"
  ioutil_WriteFile :: "string \<Rightarrow> string \<Rightarrow> 'fs \<Rightarrow> string option \<times> 'fs"
  os_Link :: "string \<Rightarrow> string \<Rightarrow> 'fs \<Rightarrow> string option \<times> 'fs"

text \<open>The five \<open>commit\<close> methods. \<open>ioutil.ReadAll\<close> on a nil reader panics.\<close>

fun commit :: "'fs os \<Rightarrow> commiter \<Rightarrow> 'fs \<Rightarrow> (string option \<times> 'fs) run" where
  "commit os (fsRmdir loc) fs = Returns (os_RemoveAll os loc fs)"
| "commit os (fsRm loc) fs = Returns (os_Remove os loc fs)"
| "commit os (fsMkdir loc) fs = Returns (os_Mkdir os loc fs)"
| "commit os (fsWritefile loc None) fs = Panics"
| "commit os (fsWritefile loc (Some data)) fs = Returns (ioutil_WriteFile os loc data fs)"
| "commit os (fsLink src dst) fs = Returns (os_Link os src dst fs)"

text \<open>
  The loop \<open>for _, d := range delta { d.commit() }\<close> of \<open>main\<close>. The first component
  of the result lists the calls of \<open>commit\<close> in the order made, each with the error
  it returned (which the loop drops); the second is the file system at the end.
\<close>

fun commit_all ::
  "'fs os \<Rightarrow> commiter list \<Rightarrow> 'fs \<Rightarrow> (commiter \<times> string option) list \<times> 'fs run" where
  "commit_all os [] fs = ([], Returns fs)"
| "commit_all os (d # ds) fs =
     (case commit os d fs of
        Returns (err, fs') \<Rightarrow>
          (case commit_all os ds fs' of (tr, r) \<Rightarrow> ((d, err) # tr, r))
      | Panics \<Rightarrow> ([(d, None)], Panics)
      | Diverges \<Rightarrow> ([(d, None)], Diverges))"


text \<open>
  What \<open>main\<close> does with one specification when the command is \<open>upgrade\<close>:
  \<open>adn.Download()\<close> in the first round of goroutines, then
  \<open>adn.PlanChanges(m.Installations[0].Dir)\<close> in the second, on the same pointer.
  A panic ends the process; the result is the plan that is then committed.
\<close>

definition fetch_then_plan ::
  "(string list \<Rightarrow> string list) \<Rightarrow> world \<Rightarrow> string \<Rightarrow> Specification \<Rightarrow> commiter list run" where
  "fetch_then_plan rng w base sp =
     (case snd (Download rng w sp) of
        Returns sp' \<Rightarrow> snd (PlanChanges rng base sp')
      | Panics \<Rightarrow> Panics
      | Diverges \<Rightarrow> Diverges)"

section \<open>Vocabulary of the properties\<close>







text \<open>An entry name that does not begin with a slash and whose directory,
  \<open>path.Dir\<close> of the name, does not begin with the element \<open>".."\<close>: the entry lies in
  the archive root or below it.\<close>

definition inside_root :: "string \<Rightarrow> bool" where
  "inside_root n = ((n = [] \<or> hd n \<noteq> CHR ''/'') \<and> Dir n \<noteq> ''..'' \<and> \<not> prefix ''../'' (Dir n))"

text \<open>The paths \<open>".."\<close>, \<open>"../.."\<close>, \<open>"../../.."\<close>, and so on.\<close>

definition dotdots :: "nat \<Rightarrow> string" where
  "dotdots n = ''..'' @ concat (replicate n ''/..'')"


text \<open>
  The shape of what \<open>path.Clean\<close> returns for a path that does not begin with a
  slash. A path element that \<open>path.Clean\<close> keeps as it is: not empty, without a
  slash, neither \<open>"."\<close> nor \<open>".."\<close>.
\<close>

definition seg_ok :: "string \<Rightarrow> bool" where
  "seg_ok s = (s \<noteq> [] \<and> CHR ''/'' \<notin> set s \<and> s \<noteq> ''.'' \<and> s \<noteq> ''..'')"

text \<open>A cleaned relative path, element by element: some \<open>".."\<close>, then elements
  that are kept.\<close>

definition normal :: "string list \<Rightarrow> bool" where
  "normal ss = (\<exists>k segs. ss = replicate k ''..'' @ segs \<and> (\<forall>s\<in>set segs. seg_ok s))"

text \<open>The output buffer of \<open>path.Clean\<close> with \<open>s\<close> appended as a further element.\<close>

definition slash_app :: "string \<Rightarrow> string \<Rightarrow> string" where
  "slash_app out s = (if out = [] then s else out @ ''/'' @ s)"


text \<open>The invariant of the loop of \<open>path.Clean\<close> on a relative path: the buffer is a
  cleaned relative path, and \<open>dotdot\<close> marks the end of its leading \<open>".."\<close>
  elements.\<close>

definition nf :: "string \<Rightarrow> nat \<Rightarrow> bool" where
  "nf out dd = (\<exists>k segs. (\<forall>s\<in>set segs. seg_ok s) \<and>
                  out = strings_Join (replicate k ''..'' @ segs) ''/'' \<and>
                  dd = length (strings_Join (replicate k ''..'') ''/''))"

text \<open>A change whose \<open>commit\<close> would read from a nil reader.\<close>

fun nil_reader :: "commiter \<Rightarrow> bool" where
  "nil_reader (fsWritefile loc None) = True"
| "nil_reader c = False"

text \<open>The file system after one \<open>commit\<close>, whatever error it returned.\<close>

definition after_commit :: "'fs os \<Rightarrow> 'fs \<Rightarrow> commiter \<Rightarrow> 'fs" where
  "after_commit os fs d = (case commit os d fs of Returns (err, fs') \<Rightarrow> fs' | _ \<Rightarrow> fs)"

section \<open>Concrete specifications, archives and worlds\<close>

definition addon :: "string \<Rightarrow> string list \<Rightarrow> Specification" where
  "addon t ds = \<lparr>Name = ''foo'', Type = t, Location = [], Branch = [],
                 zipData = None, ownDirs = ds\<rparr>"

definition entry :: "string \<Rightarrow> string \<Rightarrow> zip_File" where
  "entry n c = \<lparr>File_Name = n, ModeDir = False, Open = Some c\<rparr>"

text \<open>A world in which every request succeeds, the listing has a row, and the
  archive read is \<open>z\<close> (nil when \<open>z\<close> is \<open>None\<close>).\<close>

definition serving :: "zip_File list option \<Rightarrow> world" where
  "serving z = \<lparr>http_Get = (\<lambda>u. Some u), NewDocumentFromReader = (\<lambda>r. Some r),
                first_href = (\<lambda>d. Some ''/projects/foo/files/1/download''),
                zip_NewReader = (\<lambda>r. z)\<rparr>"

text \<open>A world in which only the listing can be fetched.\<close>

definition zip_unreachable :: world where
  "zip_unreachable =
     \<lparr>http_Get = (\<lambda>u. if u = ''https://wow.curseforge.com/projects/foo/files''
                        then Some u else None),
      NewDocumentFromReader = (\<lambda>r. Some r),
      first_href = (\<lambda>d. Some ''/projects/foo/files/1/download''),
      zip_NewReader = (\<lambda>r. None)\<rparr>"

definition archive_Foo :: "zip_File list" where
  "archive_Foo = [entry ''Foo/a.lua'' ''a'', entry ''Foo/sub/b.lua'' ''b'']"


definition archive_readme :: "zip_File list" where
  "archive_readme = [entry ''readme.txt'' ''r'']"

text \<open>An archive whose first entry cannot be opened: \<open>f.Open()\<close> returns a nil
  reader and an error.\<close>

definition archive_unreadable :: "zip_File list" where
  "archive_unreadable =
     [\<lparr>File_Name = ''Foo/a.lua'', ModeDir = False, Open = None\<rparr>, entry ''Foo/b.lua'' ''b'']"


text \<open>An operating system on a file system that is the log of the calls made; every
  \<open>Mkdir\<close> fails.\<close>

definition logging_os :: "(string list) os" where
  "logging_os =
     \<lparr>os_RemoveAll = (\<lambda>loc fs. (None, fs @ [''RemoveAll '' @ loc])),
      os_Remove = (\<lambda>loc fs. (None, fs @ [''Remove '' @ loc])),
      os_Mkdir = (\<lambda>loc fs. (Some ''mkdir: file exists'', fs @ [''Mkdir '' @ loc])),
      ioutil_WriteFile = (\<lambda>loc data fs. (None, fs @ [''WriteFile '' @ loc])),
      os_Link = (\<lambda>src dst fs. (None, fs @ [''Link '' @ src @ '' '' @ dst]))\<rparr>"


section \<open>The path functions on the examples of their documentation\<close>

lemma Clean_examples:
  "Clean [] = ''.''"
  "Clean ''abc/def/'' = ''abc/def''"
  "Clean ''abc//def//ghi'' = ''abc/def/ghi''"
  "Clean ''abc/./def'' = ''abc/def''"
  "Clean ''abc/def/../ghi/../jkl'' = ''abc/jkl''"
  "Clean ''abc/def/../..'' = ''.''"
  "Clean ''/abc/def/../../..'' = ''/''"
  "Clean ''abc/def/../../../ghi/jkl/../../../mno'' = ''../../mno''"
  "Clean ''abc/../../././../def'' = ''../../def''"
  "Clean ''//abc//'' = ''/abc''"
  by code_simp+

lemma Split_examples:
  "Split ''a/b'' = (''a/'', ''b'')"
  "Split ''a/b/'' = (''a/b/'', [])"
  "Split ''a'' = ([], ''a'')"
  "Split ''/'' = (''/'', [])"
  by code_simp+

lemma Dir_examples:
  "Dir [] = ''.''"
  "Dir ''/foo'' = ''/''"
  "Dir ''x/'' = ''x''"
  "Dir ''abc'' = ''.''"
  "Dir ''abc////def'' = ''abc''"
  "Dir ''a/b/c.x'' = ''a/b''"
  by code_simp+

lemma Join_examples:
  "Join [] = []"
  "Join [''a'', ''b''] = ''a/b''"
  "Join [''a'', []] = ''a''"
  "Join [[], ''b''] = ''b''"
  "Join [''/'', ''a''] = ''/a''"
  "Join [''a/'', ''b''] = ''a/b''"
  "Join [[], []] = []"
  by code_simp+

section \<open>Specifications that are not archives\<close>

text \<open>
  Claim C7. For a specification of type \<open>link\<close> with name \<open>n\<close> and location \<open>l\<close>,
  \<open>PlanChanges\<close> returns exactly \<open>fsRmdir{path.Join(base, n)}\<close> followed by
  \<open>fsLink{l, path.Join(base, n)}\<close>, and prints nothing: the result depends neither on
  \<open>ownDirs\<close> nor on \<open>zipData\<close> nor on any iteration order, and \<open>PlanChanges\<close> does
  not look at the disk.
\<close>

theorem PlanChanges_link:
  "Type sp = ''link'' \<Longrightarrow>
   PlanChanges rng base sp =
     ([], Returns [fsRmdir (Join [base, Name sp]),
                   fsLink (Location sp) (Join [base, Name sp])])"
  by (simp add: PlanChanges_def)

theorem PlanChanges_link_witness:
  "Type (addon ''link'' [''Old'']\<lparr>Name := ''Bar'', Location := ''/pkgs/Bar''\<rparr>) = ''link'' \<and>
   PlanChanges id ''base''
       (addon ''link'' [''Old'']\<lparr>Name := ''Bar'', Location := ''/pkgs/Bar''\<rparr>) =
     ([], Returns [fsRmdir ''base/Bar'', fsLink ''/pkgs/Bar'' ''base/Bar''])"
proof -
  have t: "Type (addon ''link'' [''Old'']\<lparr>Name := ''Bar'', Location := ''/pkgs/Bar''\<rparr>)
           = ''link''"
    by (simp add: addon_def)
  have j: "Join [''base'', ''Bar''] = ''base/Bar''"
    by code_simp
  show ?thesis
    using PlanChanges_link [OF t, of id "''base''"] t j by (simp add: addon_def)
qed

text \<open>
  Claim C10. For a specification whose \<open>Type\<close> is none of \<open>curse\<close>, \<open>wowace\<close>,
  \<open>ignore\<close> and \<open>link\<close>, \<open>Download\<close> returns the specification as it was, having
  sent no request and printed nothing, and \<open>PlanChanges\<close> returns the empty plan.
\<close>

theorem unknown_Type_untouched:
  "Type sp \<notin> {''curse'', ''wowace'', ''ignore'', ''link''} \<Longrightarrow>
   Download rng w sp = ([], Returns sp) \<and> PlanChanges rng base sp = ([], Returns [])"
  by (simp add: Download_def PlanChanges_def)

theorem unknown_Type_untouched_witness:
  "Type (addon ''git'' [''Old'']) \<notin> {''curse'', ''wowace'', ''ignore'', ''link''} \<and>
   Download id (serving (Some archive_Foo)) (addon ''git'' [''Old''])
     = ([], Returns (addon ''git'' [''Old''])) \<and>
   PlanChanges id ''base'' (addon ''git'' [''Old'']) = ([], Returns [])"
proof -
  have t: "Type (addon ''git'' [''Old'']) \<notin> {''curse'', ''wowace'', ''ignore'', ''link''}"
    by (simp add: addon_def)
  show ?thesis
    using unknown_Type_untouched
            [OF t, of id "serving (Some archive_Foo)" "''base''"] t
    by simp
qed

section \<open>The commit loop\<close>

lemma commit_not_nil_reader:
  "\<not> nil_reader d \<Longrightarrow> \<exists>err fs'. commit os d fs = Returns (err, fs')"
  by (cases "(os, d, fs)" rule: commit.cases) (auto intro: prod.exhaust)

text \<open>What the loop does in general: it calls \<open>commit\<close> on the changes in the
  plan's order, up to and including the first that reads a nil reader, and on none
  after that one.\<close>

lemma commit_all_until_nil_reader:
  "map fst (fst (commit_all os ds fs)) =
     takeWhile (\<lambda>d. \<not> nil_reader d) ds @ take 1 (dropWhile (\<lambda>d. \<not> nil_reader d) ds)"
proof (induction ds arbitrary: fs)
  case Nil
  show ?case by simp
next
  case (Cons d ds)
  show ?case
  proof (cases "nil_reader d")
    case True
    then obtain loc where "d = fsWritefile loc None"
      by (cases d rule: nil_reader.cases) auto
    then show ?thesis by simp
  next
    case False
    from commit_not_nil_reader [OF this, of os fs]
    obtain err fs' where c: "commit os d fs = Returns (err, fs')" by auto
    with Cons.IH [of fs'] False show ?thesis
      by (auto split: prod.splits)
  qed
qed

text \<open>On a plan without such a change it calls \<open>commit\<close> on every change, once each
  and in the plan's order, whatever errors the calls returned, and the file system
  at the end is the one reached by these calls one after the other.\<close>

lemma commit_all_without_nil_reader:
  "\<forall>d \<in> set ds. \<not> nil_reader d \<Longrightarrow>
   map fst (fst (commit_all os ds fs)) = ds \<and>
   snd (commit_all os ds fs) = Returns (foldl (after_commit os) fs ds)"
proof (induction ds arbitrary: fs)
  case Nil
  show ?case by simp
next
  case (Cons d ds)
  from Cons.prems have "\<not> nil_reader d" by simp
  from commit_not_nil_reader [OF this, of os fs]
  obtain err fs' where c: "commit os d fs = Returns (err, fs')"
    by auto
  from Cons.prems have "\<forall>d \<in> set ds. \<not> nil_reader d" by simp
  from Cons.IH [OF this, of fs'] c show ?case
    by (auto simp: after_commit_def split: prod.splits)
qed

text \<open>
  Claim C8 says that \<open>commit\<close> is attempted on every change of a plan, whatever the
  earlier calls returned. For the archive whose first entry cannot be opened
  (\<open>f.Open()\<close> returns a nil reader and an error, and \<open>PlanChanges\<close> drops the error)
  and whose second entry can, \<open>Download\<close> and \<open>PlanChanges\<close> return a plan of four
  changes. The loop commits the first two, the second of them with an error that it
  drops, panics in the third on \<open>ioutil.ReadAll\<close> of the nil reader, and never
  attempts the fourth.
\<close>

theorem commit_loop_stops_at_nil_reader:
  "fetch_then_plan id (serving (Some archive_unreadable)) ''base'' (addon ''curse'' []) =
     Returns [fsRmdir ''base/Foo'', fsMkdir ''base/Foo'',
              fsWritefile ''base/Foo/a.lua'' None,
              fsWritefile ''base/Foo/b.lua'' (Some ''b'')] \<and>
   commit_all logging_os
     [fsRmdir ''base/Foo'', fsMkdir ''base/Foo'',
      fsWritefile ''base/Foo/a.lua'' None,
      fsWritefile ''base/Foo/b.lua'' (Some ''b'')] [] =
     ([(fsRmdir ''base/Foo'', None),
       (fsMkdir ''base/Foo'', Some ''mkdir: file exists''),
       (fsWritefile ''base/Foo/a.lua'' None, None)], Panics)"
  by code_simp

section \<open>The top-level directories of an archive\<close>

text \<open>\<open>path.Clean\<close> leaves \<open>".."\<close>, \<open>"../.."\<close>, ... as they are, so
  \<open>path.Join(dir, "..")\<close> only makes such a path longer.\<close>

lemma clean_loop_dotdots:
  "out \<noteq> [] \<Longrightarrow>
   clean_loop False (concat (replicate k ''/..'')) out (length out)
     = out @ concat (replicate k ''/..'')"
proof (induction k arbitrary: out)
  case 0
  show ?case by simp
next
  case (Suc k)
  have tl_cases: "concat (replicate k ''/..'') = [] \<or> hd (concat (replicate k ''/..'')) = CHR ''/''"
    by (cases k) simp_all
  have ne: "out @ ''/..'' \<noteq> []" by simp
  have "clean_loop False (concat (replicate (Suc k) ''/..'')) out (length out)
        = clean_loop False (concat (replicate k ''/..'')) (out @ ''/..'') (length (out @ ''/..''))"
    using Suc.prems tl_cases by (simp add: clean_loop.simps(2))
  also have "\<dots> = (out @ ''/..'') @ concat (replicate k ''/..'')"
    by (rule Suc.IH [OF ne])
  finally show ?case by simp
qed

lemma Clean_dotdots: "Clean (dotdots n) = dotdots n"
proof -
  have tl_cases: "concat (replicate n ''/..'') = [] \<or> hd (concat (replicate n ''/..'')) = CHR ''/''"
    by (cases n) simp_all
  have "clean_loop False (dotdots n) [] 0
        = clean_loop False (concat (replicate n ''/..'')) ''..'' (length ''..'')"
    using tl_cases by (simp add: dotdots_def clean_loop.simps(2))
  also have "\<dots> = ''..'' @ concat (replicate n ''/..'')"
    by (rule clean_loop_dotdots) simp
  finally have "clean_loop False (dotdots n) [] 0 = dotdots n"
    by (simp add: dotdots_def)
  then show ?thesis
    by (simp add: Clean_def dotdots_def)
qed

lemma dotdots_Suc: "dotdots n @ ''/..'' = dotdots (Suc n)"
  by (induction n) (simp_all add: dotdots_def)

lemma Join_dotdots: "Join [dotdots n, ''..''] = dotdots (Suc n)"
proof -
  have "Join [dotdots n, ''..''] = Clean (dotdots n @ ''/..'')"
    by (simp add: Join_def dotdots_def)
  then show ?thesis
    by (simp only: dotdots_Suc Clean_dotdots)
qed

lemma Join_empty_dotdot: "Join [[], ''..''] = dotdots 0"
  using Clean_dotdots [of 0] by (simp add: Join_def dotdots_def)

lemma dotdots_not_dot: "dotdots n \<noteq> ''.''"
  by (simp add: dotdots_def)

text \<open>Started from the empty directory part, the climbing loop of \<open>Download\<close> visits
  \<open>".."\<close>, \<open>"../.."\<close>, ... and never meets \<open>"."\<close>.\<close>

lemma topDir_Some_not_dotdots:
  assumes "topDir dir = Some y"
  shows "dir \<noteq> [] \<and> (\<forall>n. dir \<noteq> dotdots n)"
proof (rule topDir.raw_induct [of "\<lambda>d r. d \<noteq> [] \<and> (\<forall>n. d \<noteq> dotdots n)" dir y])
  fix f :: "string \<Rightarrow> string option" and d r :: string
  assume IH: "\<And>x y. f x = Some y \<Longrightarrow> x \<noteq> [] \<and> (\<forall>n. x \<noteq> dotdots n)"
  assume step: "(if Join [d, ''..''] = ''.'' then Some d else f (Join [d, ''..''])) = Some r"
  show "d \<noteq> [] \<and> (\<forall>n. d \<noteq> dotdots n)"
  proof (intro conjI allI notI)
    assume "d = []"
    with step have "f (dotdots 0) = Some r"
      by (simp add: Join_empty_dotdot dotdots_not_dot)
    from IH [OF this] show False by blast
  next
    fix n assume "d = dotdots n"
    with step have "f (dotdots (Suc n)) = Some r"
      by (simp add: Join_dotdots dotdots_not_dot)
    from IH [OF this] show False by blast
  qed
next
  show "topDir dir = Some y" by (rule assms)
qed

lemma topDir_empty: "topDir [] = None"
  using topDir_Some_not_dotdots [of "[]"] by (cases "topDir []") auto

lemma Split_no_slash: "CHR ''/'' \<notin> set p \<Longrightarrow> Split p = ([], p)"
  by (simp add: Split_def LastIndexByte_def)

text \<open>An archive that holds an entry without a slash in its name (other than
  \<open>"."\<close>) keeps the loop over the entries from finishing.\<close>

lemma collectDirs_root_file:
  "f \<in> set files \<Longrightarrow> CHR ''/'' \<notin> set (File_Name f) \<Longrightarrow> File_Name f \<noteq> ''.'' \<Longrightarrow>
   collectDirs files dirs = None"
proof (induction files arbitrary: dirs)
  case Nil
  then show ?case by simp
next
  case (Cons g gs)
  show ?case
  proof (cases "g = f")
    case True
    with Cons.prems show ?thesis
      by (simp add: Split_no_slash topDir_empty)
  next
    case False
    with Cons.prems have "f \<in> set gs" by simp
    from Cons.IH [OF this Cons.prems(2,3)] show ?thesis
      by (simp split: option.splits)
  qed
qed

text \<open>An archive without entries gives no directories.\<close>

lemma no_entries_no_dirs:
  "Download rng (serving (Some [])) (addon ''curse'' ds) =
     ([HttpGet ''https://wow.curseforge.com/projects/foo/files'',
       HttpGet ''https://wow.curseforge.com/projects/foo/files/1/download''],
      Returns (addon ''curse'' (rng [])\<lparr>zipData := Some []\<rparr>))"
  by (simp add: Download_def addon_def serving_def index_url_def fetch_zip_def site_prefix_def)

text \<open>
  Claim C3 says that the computation of the top-level directories ends for every
  entry list, entries at the archive root included. For the archive whose only entry
  is the file \<open>readme.txt\<close>, \<open>Download\<close> fetches the listing and the archive and
  then never returns: \<open>path.Split\<close> gives the directory part \<open>""\<close>,
  \<open>path.Join("", "..")\<close> is \<open>".."\<close>, and from there each round appends
  \<open>"/.."\<close>. This holds for every iteration order \<open>rng\<close>.
\<close>

theorem Download_root_file_diverges:
  "Download rng (serving (Some archive_readme)) (addon ''curse'' ds) =
     ([HttpGet ''https://wow.curseforge.com/projects/foo/files'',
       HttpGet ''https://wow.curseforge.com/projects/foo/files/1/download''], Diverges)"
proof -
  have "collectDirs archive_readme [] = None"
    by (rule collectDirs_root_file [of "entry ''readme.txt'' ''r''"])
       (simp_all add: archive_readme_def entry_def)
  then show ?thesis
    by (simp add: Download_def addon_def serving_def index_url_def fetch_zip_def site_prefix_def)
qed


section \<open>The plan of an archive\<close>









lemma PlanChanges_archive:
  assumes "Type sp = ''curse'' \<or> Type sp = ''wowace''" and "zipData sp = Some files"
    and "PlanChanges rng base sp = (evs, Returns cs)"
  shows "\<exists>ds. dirSl rng files = Some ds \<and> evs = [] \<and>
              cs = rmdirs base (ownDirs sp) @ mkdirs base ds @ writefiles base files"
  using assms by (auto simp: PlanChanges_def split: option.splits)




section \<open>Download and the archive it fetched\<close>

lemma Download_Foo:
  "Download rng (serving (Some archive_Foo)) (addon ''curse'' ds) =
     ([HttpGet ''https://wow.curseforge.com/projects/foo/files'',
       HttpGet ''https://wow.curseforge.com/projects/foo/files/1/download''],
      Returns (addon ''curse'' (rng [''Foo/'', ''Foo''])\<lparr>zipData := Some archive_Foo\<rparr>))"
proof -
  have c: "collectDirs archive_Foo [] = Some [''Foo/'', ''Foo'']"
    by code_simp
  show ?thesis
    by (simp add: Download_def addon_def serving_def index_url_def fetch_zip_def
          site_prefix_def c)
qed

text \<open>
  Claim C2 says that the new \<open>ownDirs\<close> holds each first path segment of the archive
  once. For the archive with the entries \<open>Foo/a.lua\<close> and \<open>Foo/sub/b.lua\<close>,
  \<open>Download\<close> stores two keys for the one directory \<open>Foo\<close>: \<open>"Foo/"\<close>, the
  directory part \<open>path.Split\<close> gives for the first entry, and \<open>"Foo"\<close>, which
  \<open>path.Join\<close> gives on the way up from \<open>"Foo/sub/"\<close>. \<open>ownDirs\<close> is these two
  keys in the iteration order, and both join with the base to the same path.
\<close>

theorem Download_keeps_Foo_twice:
  "Download rng (serving (Some archive_Foo)) (addon ''curse'' ds) =
     ([HttpGet ''https://wow.curseforge.com/projects/foo/files'',
       HttpGet ''https://wow.curseforge.com/projects/foo/files/1/download''],
      Returns (addon ''curse'' (rng [''Foo/'', ''Foo''])\<lparr>zipData := Some archive_Foo\<rparr>)) \<and>
   Join [''base'', ''Foo/''] = ''base/Foo'' \<and> Join [''base'', ''Foo''] = ''base/Foo''"
proof -
  have j: "Join [''base'', ''Foo/''] = ''base/Foo''" "Join [''base'', ''Foo''] = ''base/Foo''"
    by code_simp+
  show ?thesis
    by (simp add: Download_Foo j)
qed

text \<open>
  Claim C4 says that after any failure to fetch or read the archive \<open>Download\<close>
  does nothing more and \<open>PlanChanges\<close> later plans nothing. When the request for the
  archive fails, the function literal prints and returns, but \<open>Download\<close> goes on to
  range over \<open>sp.zipData.File\<close> with \<open>sp.zipData\<close> nil, and panics; when
  \<open>zip.NewReader\<close> fails, its error is dropped, nothing is printed, and the same
  dereference panics.
\<close>

theorem Download_panics_without_archive:
  "Download rng zip_unreachable (addon ''curse'' ds) =
     ([HttpGet ''https://wow.curseforge.com/projects/foo/files'',
       HttpGet ''https://wow.curseforge.com/projects/foo/files/1/download'',
       Print ''Error getting zip.''], Panics) \<and>
   Download rng (serving None) (addon ''curse'' ds) =
     ([HttpGet ''https://wow.curseforge.com/projects/foo/files'',
       HttpGet ''https://wow.curseforge.com/projects/foo/files/1/download''], Panics)"
  by (simp add: Download_def addon_def serving_def zip_unreachable_def index_url_def
        fetch_zip_def site_prefix_def)

text \<open>In general: whenever the listing was fetched and parsed and the function
  literal leaves \<open>sp.zipData\<close> nil, \<open>Download\<close> panics.\<close>

lemma Download_nil_zipData:
  assumes "Type sp = ''curse'' \<or> Type sp = ''wowace''"
    and "http_Get w (index_url sp) = Some resp"
    and "NewDocumentFromReader w resp = Some doc"
    and "zipData sp = None"
    and "first_href w doc = None \<or>
         (\<exists>h. first_href w doc = Some h \<and>
            (http_Get w (site_prefix sp @ h) = None \<or>
             (\<exists>r. http_Get w (site_prefix sp @ h) = Some r \<and> zip_NewReader w r = None)))"
  shows "snd (Download rng w sp) = Panics"
proof -
  from assms(1) have "index_url sp \<noteq> []"
    by (auto simp: index_url_def)
  with assms show ?thesis
    by (auto simp: Download_def Let_def fetch_zip_def split: option.splits)
qed

text \<open>The two failures before the archive is asked for do what claim C4 says:
  \<open>Download\<close> prints and returns the specification unchanged, and with no archive
  \<open>PlanChanges\<close> plans nothing.\<close>

lemma Download_index_failure:
  assumes "Type sp = ''curse'' \<or> Type sp = ''wowace''"
    and "http_Get w (index_url sp) = None \<or>
         (\<exists>resp. http_Get w (index_url sp) = Some resp \<and> NewDocumentFromReader w resp = None)"
  shows "\<exists>msg. Download rng w sp = ([HttpGet (index_url sp), Print msg], Returns sp)"
proof -
  from assms(1) have "index_url sp \<noteq> []"
    by (auto simp: index_url_def)
  with assms show ?thesis
    by (auto simp: Download_def Let_def)
qed

lemma PlanChanges_nil_data:
  "Type sp = ''curse'' \<or> Type sp = ''wowace'' \<Longrightarrow> zipData sp = None \<Longrightarrow>
   PlanChanges rng base sp = ([Print ''nil data''], Returns [])"
  by (auto simp: PlanChanges_def)

lemma PlanChanges_Foo_twice:
  "PlanChanges id ''base'' (addon ''curse'' [''Foo/'', ''Foo'']\<lparr>zipData := Some archive_Foo\<rparr>) =
     ([], Returns [fsRmdir ''base/Foo'', fsRmdir ''base/Foo'', fsMkdir ''base/Foo'',
              fsMkdir ''base/Foo/sub'', fsWritefile ''base/Foo/a.lua'' (Some ''a''),
              fsWritefile ''base/Foo/sub/b.lua'' (Some ''b'')])"
  "PlanChanges rev ''base'' (addon ''curse'' [''Foo'', ''Foo/'']\<lparr>zipData := Some archive_Foo\<rparr>) =
     ([], Returns [fsRmdir ''base/Foo'', fsRmdir ''base/Foo'', fsMkdir ''base/Foo'',
              fsMkdir ''base/Foo/sub'', fsWritefile ''base/Foo/a.lua'' (Some ''a''),
              fsWritefile ''base/Foo/sub/b.lua'' (Some ''b'')])"
  by code_simp+

text \<open>
  Claim C5 says that a specification that owned \<open>Foo\<close> and fetches the archive
  with the entries \<open>Foo/a.lua\<close> and \<open>Foo/sub/b.lua\<close> gets a plan of five changes.
  The plan made after \<open>Download\<close> has six, whatever \<open>ownDirs\<close> was before:
  \<open>ownDirs\<close> then holds \<open>"Foo/"\<close> and \<open>"Foo"\<close>, so \<open>fsRmdir{base/Foo}\<close>
  comes twice, in either iteration order of the two keys.
\<close>

theorem plan_of_Foo_removes_twice:
  "fetch_then_plan id (serving (Some archive_Foo)) ''base'' (addon ''curse'' ds) =
     Returns [fsRmdir ''base/Foo'', fsRmdir ''base/Foo'', fsMkdir ''base/Foo'',
              fsMkdir ''base/Foo/sub'', fsWritefile ''base/Foo/a.lua'' (Some ''a''),
              fsWritefile ''base/Foo/sub/b.lua'' (Some ''b'')] \<and>
   fetch_then_plan rev (serving (Some archive_Foo)) ''base'' (addon ''curse'' ds) =
     Returns [fsRmdir ''base/Foo'', fsRmdir ''base/Foo'', fsMkdir ''base/Foo'',
              fsMkdir ''base/Foo/sub'', fsWritefile ''base/Foo/a.lua'' (Some ''a''),
              fsWritefile ''base/Foo/sub/b.lua'' (Some ''b'')]"
  by (simp add: fetch_then_plan_def Download_Foo PlanChanges_Foo_twice)

text \<open>\<open>sort.Strings\<close> makes the iteration order of \<open>dirs\<close> irrelevant.\<close>

lemma sort_iteration_order: "iteration_order rng \<Longrightarrow> sort (rng ks) = sort ks"
  by (rule properties_for_sort) (simp_all add: iteration_order_def)

lemma allDirs_Foo: "allDirs archive_Foo [] = Some [''Foo'', ''Foo/sub'']"
  by code_simp

text \<open>\<open>PlanChanges\<close> by itself, on a specification whose \<open>ownDirs\<close> is
  \<open>["Foo"]\<close> when it is called, returns the five changes of claim C5.\<close>

lemma PlanChanges_Foo_alone:
  assumes "iteration_order rng"
  shows "PlanChanges rng base (addon ''curse'' [''Foo'']\<lparr>zipData := Some archive_Foo\<rparr>) =
     ([], Returns [fsRmdir (Join [base, ''Foo'']), fsMkdir (Join [base, ''Foo'']),
                   fsMkdir (Join [base, ''Foo/sub'']),
                   fsWritefile (Join [base, ''Foo/a.lua'']) (Some ''a''),
                   fsWritefile (Join [base, ''Foo/sub/b.lua'']) (Some ''b'')])"
proof -
  have "sort [''Foo'', ''Foo/sub''] = [''Foo'', ''Foo/sub'']"
    by code_simp
  with assms have "dirSl rng archive_Foo = Some [''Foo'', ''Foo/sub'']"
    by (simp add: dirSl_def allDirs_Foo sort_iteration_order)
  then show ?thesis
    by (simp add: PlanChanges_def addon_def archive_Foo_def entry_def IsDir_def)
qed


section \<open>The order of the directories created\<close>












section \<open>What \<open>path.Clean\<close> and \<open>path.Dir\<close> return\<close>

text \<open>Joining with slashes, from the left and from the right.\<close>

lemma strings_Join_snoc:
  "strings_Join (ss @ [s]) ''/'' = (if ss = [] then s else strings_Join ss ''/'' @ ''/'' @ s)"
  by (induction ss "''/''" rule: strings_Join.induct) simp_all

lemma strings_Join_Cons:
  "strings_Join (s # ss) ''/'' = s @ concat (map ((#) CHR ''/'') ss)"
  by (induction ss arbitrary: s) simp_all

lemma strings_Join_eq_Nil:
  "\<forall>s\<in>set ss. s \<noteq> [] \<Longrightarrow> strings_Join ss ''/'' = [] \<longleftrightarrow> ss = []"
  by (cases ss) (simp_all add: strings_Join_Cons)

text \<open>One round of the loop of \<open>path.Clean\<close>, for each kind of path element.\<close>

lemma clean_loop_slash:
  "clean_loop rooted (CHR ''/'' # X) out dd = clean_loop rooted X out dd"
  by (simp add: clean_loop.simps(2))

lemma clean_loop_seg:
  assumes "seg_ok s" and "X = [] \<or> hd X = CHR ''/''"
  shows "clean_loop False (s @ X) out dd = clean_loop False X (slash_app out s) dd"
proof -
  from assms(1) obtain c s' where s: "s = c # s'" and c: "c \<noteq> CHR ''/''"
    and s': "CHR ''/'' \<notin> set s'"
    by (cases s) (auto simp: seg_ok_def)
  have tw: "takeWhile (\<lambda>x. x \<noteq> CHR ''/'') (s' @ X) = s'"
    using s' assms(2) by (cases X) (auto simp: takeWhile_tail takeWhile_eq_all_conv)
  have dw: "dropWhile (\<lambda>x. x \<noteq> CHR ''/'') (s' @ X) = X"
    using s' assms(2) by (cases X) (auto simp: dropWhile_append3 dropWhile_eq_Nil_conv)
  have n2: "\<not> (c = CHR ''.'' \<and> (s' @ X = [] \<or> hd (s' @ X) = CHR ''/''))"
    using assms s s' by (cases s') (auto simp: seg_ok_def)
  have n3: "\<not> (c = CHR ''.'' \<and> s' @ X \<noteq> [] \<and> hd (s' @ X) = CHR ''.''
              \<and> (tl (s' @ X) = [] \<or> hd (tl (s' @ X)) = CHR ''/''))"
  proof (cases s')
    case Nil
    with assms(2) show ?thesis by auto
  next
    case (Cons d s'')
    show ?thesis
    proof (cases s'')
      case Nil
      with Cons assms(1) s show ?thesis by (auto simp: seg_ok_def)
    next
      case (Cons e s''')
      with \<open>s' = d # s''\<close> s' show ?thesis by auto
    qed
  qed
  have "clean_loop False (c # s' @ X) out dd
        = clean_loop False (dropWhile (\<lambda>x. x \<noteq> CHR ''/'') (s' @ X))
            ((if False \<and> length out \<noteq> 1 \<or> \<not> False \<and> length out \<noteq> 0
                then out @ ''/'' else out)
             @ c # takeWhile (\<lambda>x. x \<noteq> CHR ''/'') (s' @ X)) dd"
    by (subst clean_loop.simps(2)) (simp only: c n2 n3 if_False)
  then show ?thesis
    by (simp add: s tw dw slash_app_def)
qed

lemma clean_loop_dotdot:
  assumes "X = [] \<or> hd X = CHR ''/''"
  shows "clean_loop False (''..'' @ X) out (length out)
         = clean_loop False X (slash_app out ''..'') (length (slash_app out ''..''))"
  using assms by (simp add: clean_loop.simps(2) slash_app_def)

lemma seg_ok_nonempty: "seg_ok s \<Longrightarrow> s \<noteq> []"
  by (simp add: seg_ok_def)

lemma normal_nonempty:
  assumes "normal ss" and "s \<in> set ss"
  shows "s \<noteq> [] \<and> CHR ''/'' \<notin> set s"
proof -
  from assms(1) obtain k segs where ss: "ss = replicate k ''..'' @ segs"
    and ok: "\<forall>s\<in>set segs. seg_ok s"
    unfolding normal_def by blast
  from assms(2) have "s \<in> set (replicate k ''..'') \<or> s \<in> set segs"
    unfolding ss by simp
  then consider "s = ''..''" | "s \<in> set segs"
    by (auto simp only: set_replicate_conv_if split: if_splits)
  then show ?thesis
  proof cases
    case 1
    then show ?thesis by simp
  next
    case 2
    with ok have "seg_ok s" by blast
    then show ?thesis by (simp add: seg_ok_def)
  qed
qed

lemma foldl_slash_app:
  "\<forall>s\<in>set ss. s \<noteq> [] \<Longrightarrow> \<forall>r\<in>set rs. r \<noteq> [] \<Longrightarrow>
   foldl slash_app (strings_Join rs ''/'') ss = strings_Join (rs @ ss) ''/''"
proof (induction ss arbitrary: rs)
  case Nil
  show ?case by simp
next
  case (Cons s ss)
  have "slash_app (strings_Join rs ''/'') s = strings_Join (rs @ [s]) ''/''"
    using Cons.prems(2) by (simp add: slash_app_def strings_Join_snoc strings_Join_eq_Nil)
  moreover have "foldl slash_app (strings_Join (rs @ [s]) ''/'') ss
                 = strings_Join ((rs @ [s]) @ ss) ''/''"
    using Cons.prems by (intro Cons.IH) auto
  ultimately show ?case by simp
qed

lemma foldl_slash_app_Nil:
  "\<forall>s\<in>set ss. s \<noteq> [] \<Longrightarrow> foldl slash_app [] ss = strings_Join ss ''/''"
  using foldl_slash_app [of ss "[]"] by simp

lemma slashed_head:
  "concat (map ((#) CHR ''/'') ss) @ T = [] \<or> hd (concat (map ((#) CHR ''/'') ss) @ T) = CHR ''/''"
  if "T = [] \<or> hd T = CHR ''/''"
  using that by (cases ss) auto

lemma clean_loop_segs:
  assumes "\<forall>s\<in>set segs. seg_ok s" and "T = [] \<or> hd T = CHR ''/''"
  shows "clean_loop False (concat (map ((#) CHR ''/'') segs) @ T) out dd
         = clean_loop False T (foldl slash_app out segs) dd"
  using assms(1)
proof (induction segs arbitrary: out)
  case Nil
  show ?case by simp
next
  case (Cons s segs)
  have ok: "seg_ok s" and rest: "\<forall>s\<in>set segs. seg_ok s"
    using Cons.prems by simp_all
  have "clean_loop False (concat (map ((#) CHR ''/'') (s # segs)) @ T) out dd
        = clean_loop False (s @ (concat (map ((#) CHR ''/'') segs) @ T)) out dd"
    by (simp add: clean_loop_slash)
  also have "\<dots> = clean_loop False (concat (map ((#) CHR ''/'') segs) @ T) (slash_app out s) dd"
    by (rule clean_loop_seg [OF ok slashed_head [OF assms(2)]])
  also have "\<dots> = clean_loop False T (foldl slash_app (slash_app out s) segs) dd"
    by (rule Cons.IH [OF rest])
  finally show ?case by simp
qed

lemma clean_loop_dotdot_run:
  assumes "Y = [] \<or> hd Y = CHR ''/''"
  shows "clean_loop False (concat (map ((#) CHR ''/'') (replicate k ''..'')) @ Y) out (length out)
         = clean_loop False Y (foldl slash_app out (replicate k ''..''))
             (length (foldl slash_app out (replicate k ''..'')))"
proof (induction k arbitrary: out)
  case 0
  show ?case by simp
next
  case (Suc k)
  have "clean_loop False (concat (map ((#) CHR ''/'') (replicate (Suc k) ''..'')) @ Y) out (length out)
        = clean_loop False (''..'' @ (concat (map ((#) CHR ''/'') (replicate k ''..'')) @ Y))
            out (length out)"
    by (simp add: clean_loop_slash)
  also have "\<dots> = clean_loop False (concat (map ((#) CHR ''/'') (replicate k ''..'')) @ Y)
                      (slash_app out ''..'') (length (slash_app out ''..''))"
    by (rule clean_loop_dotdot [OF slashed_head [OF assms]])
  also have "\<dots> = clean_loop False Y (foldl slash_app (slash_app out ''..'') (replicate k ''..''))
             (length (foldl slash_app (slash_app out ''..'') (replicate k ''..'')))"
    by (rule Suc.IH)
  finally show ?case by simp
qed

lemma clean_loop_end: "T = [] \<or> T = ''/'' \<Longrightarrow> clean_loop rooted T out dd = out"
  by (auto simp: clean_loop_slash)

text \<open>\<open>path.Clean\<close> returns a cleaned relative path as it is, also when a slash
  follows it.\<close>

lemma Clean_normal:
  assumes "normal ss" and "ss \<noteq> []" and "T = [] \<or> T = ''/''"
  shows "Clean (strings_Join ss ''/'' @ T) = strings_Join ss ''/''"
proof -
  from assms(1) obtain k segs where ss: "ss = replicate k ''..'' @ segs"
    and ok: "\<forall>s\<in>set segs. seg_ok s"
    by (auto simp: normal_def)
  have ne: "\<forall>s\<in>set ss. s \<noteq> []"
    using normal_nonempty [OF assms(1)] by blast
  from assms(2) obtain s0 ss0 where c: "ss = s0 # ss0" by (cases ss) auto
  have j: "strings_Join ss ''/'' \<noteq> []"
    using ne assms(2) by (simp add: strings_Join_eq_Nil)
  have h: "hd (strings_Join ss ''/'') \<noteq> CHR ''/''"
    using normal_nonempty [OF assms(1), of s0] c
    by (cases s0) (auto simp: strings_Join_Cons)
  have T: "T = [] \<or> hd T = CHR ''/''" using assms(3) by auto
  have T2: "concat (map ((#) CHR ''/'') segs) @ T = [] \<or>
            hd (concat (map ((#) CHR ''/'') segs) @ T) = CHR ''/''"
    by (rule slashed_head [OF T])
  have e1: "CHR ''/'' # strings_Join ss ''/'' = concat (map ((#) CHR ''/'') ss)"
    unfolding c by (simp add: strings_Join_Cons)
  have e2: "concat (map ((#) CHR ''/'') ss)
            = concat (map ((#) CHR ''/'') (replicate k ''..'')) @ concat (map ((#) CHR ''/'') segs)"
    unfolding ss by simp
  have e3: "CHR ''/'' # strings_Join ss ''/'' @ T
            = concat (map ((#) CHR ''/'') (replicate k ''..''))
              @ (concat (map ((#) CHR ''/'') segs) @ T)"
    using e1 e2 by simp
  have "clean_loop False (strings_Join ss ''/'' @ T) [] 0
        = clean_loop False (CHR ''/'' # strings_Join ss ''/'' @ T) [] 0"
    by (simp only: clean_loop_slash)
  also have "\<dots> = clean_loop False (concat (map ((#) CHR ''/'') (replicate k ''..''))
              @ (concat (map ((#) CHR ''/'') segs) @ T)) [] (length ([]::string))"
    by (simp only: e3 list.size)
  also have "\<dots> = clean_loop False (concat (map ((#) CHR ''/'') segs) @ T)
            (foldl slash_app [] (replicate k ''..''))
            (length (foldl slash_app [] (replicate k ''..'')))"
    by (rule clean_loop_dotdot_run [OF T2])
  also have "\<dots> = clean_loop False T
                     (foldl slash_app (foldl slash_app [] (replicate k ''..'')) segs)
                     (length (foldl slash_app [] (replicate k ''..'')))"
    by (rule clean_loop_segs [OF ok T])
  also have "\<dots> = foldl slash_app (foldl slash_app [] (replicate k ''..'')) segs"
    by (rule clean_loop_end [OF assms(3)])
  also have "\<dots> = foldl slash_app [] ss"
    by (simp only: ss foldl_append)
  also have "\<dots> = strings_Join ss ''/''"
    by (rule foldl_slash_app_Nil [OF ne])
  finally have "clean_loop False (strings_Join ss ''/'' @ T) [] 0 = strings_Join ss ''/''" .
  with j h show ?thesis
    by (simp add: Clean_def)
qed

lemma normal_prefix:
  assumes "normal (xs @ ys)"
  shows "normal xs"
proof -
  from assms obtain k segs where e: "xs @ ys = replicate k ''..'' @ segs"
    and ok: "\<forall>s\<in>set segs. seg_ok s"
    unfolding normal_def by blast
  have "xs = take (length xs) (xs @ ys)" by simp
  also have "\<dots> = take (length xs) (replicate k ''..'') @ take (length xs - k) segs"
    unfolding e by simp
  also have "take (length xs) (replicate k ''..'') = replicate (min (length xs) k) ''..''"
    by simp
  finally have "xs = replicate (min (length xs) k) ''..'' @ take (length xs - k) segs" .
  moreover have "\<forall>s\<in>set (take (length xs - k) segs). seg_ok s"
    using ok by (meson in_set_takeD)
  ultimately show ?thesis
    unfolding normal_def by blast
qed

text \<open>\<open>path.Split\<close> and \<open>path.Dir\<close> on a path whose last element is known.\<close>

lemma Split_slash:
  assumes "CHR ''/'' \<notin> set s"
  shows "Split (p @ CHR ''/'' # s) = (p @ ''/'', s)"
proof -
  have "takeWhile (\<lambda>x. x \<noteq> CHR ''/'') (rev s @ CHR ''/'' # rev p) = rev s"
    using assms by (auto simp: takeWhile_tail takeWhile_eq_all_conv)
  then have "LastIndexByte (p @ CHR ''/'' # s) (CHR ''/'') = int (length p)"
    by (simp add: LastIndexByte_def)
  moreover have "nat (int (length p) + 1) = Suc (length p)" by simp
  ultimately show ?thesis
    by (simp add: Split_def Let_def)
qed

lemma Dir_no_slash: "CHR ''/'' \<notin> set s \<Longrightarrow> Dir s = ''.''"
  by (simp add: Dir_def Split_def LastIndexByte_def Clean_def)

lemma Dir_joined_snoc:
  assumes "normal (ss @ [s])" and "ss \<noteq> []"
  shows "Dir (strings_Join (ss @ [s]) ''/'') = strings_Join ss ''/''"
proof -
  have s: "CHR ''/'' \<notin> set s"
    using normal_nonempty [OF assms(1), of s] by simp
  have n: "normal ss"
    by (rule normal_prefix [OF assms(1)])
  have "strings_Join (ss @ [s]) ''/'' = strings_Join ss ''/'' @ CHR ''/'' # s"
    using assms(2) by (simp add: strings_Join_snoc)
  then have "Dir (strings_Join (ss @ [s]) ''/'') = Clean (strings_Join ss ''/'' @ ''/'')"
    by (simp add: Dir_def Split_slash [OF s])
  also have "\<dots> = strings_Join ss ''/''"
    by (rule Clean_normal [OF n assms(2)]) simp
  finally show ?thesis .
qed

text \<open>Where the scan back over the buffer stops.\<close>

lemma backtrack_stop:
  assumes "w' \<le> w" and "dd \<le> w'" and "w' = dd \<or> out ! w' = CHR ''/''"
    and "\<forall>i. w' < i \<and> i \<le> w \<longrightarrow> out ! i \<noteq> CHR ''/''"
  shows "backtrack out dd w = w'"
  using assms(1,4)
proof (induction "w - w'" arbitrary: w)
  case 0
  then have "w = w'" by simp
  with assms(2,3) show ?case
    by (subst backtrack.simps) auto
next
  case (Suc n)
  then have lt: "w' < w" by simp
  with assms(2) have "dd < w" by simp
  moreover from Suc.prems(2) lt have "out ! w \<noteq> CHR ''/''" by simp
  ultimately have "backtrack out dd w = backtrack out dd (w - 1)"
    by (subst backtrack.simps) simp
  also have "\<dots> = w'"
  proof (rule Suc.hyps(1))
    show "n = w - 1 - w'" using Suc.hyps(2) by simp
    show "w' \<le> w - 1" using lt by simp
    show "\<forall>i. w' < i \<and> i \<le> w - 1 \<longrightarrow> out ! i \<noteq> CHR ''/''"
      using Suc.prems(2) by auto
  qed
  finally show ?case .
qed

lemma backtrack_ge: "dd \<le> w \<Longrightarrow> dd \<le> backtrack out dd w"
proof (induction out dd w rule: backtrack.induct)
  case (1 out dotdot w)
  show ?case
  proof (cases "w > dotdot \<and> out ! w \<noteq> CHR ''/''")
    case True
    then have "dotdot \<le> w - 1" by linarith
    from 1(1) [OF True this] True show ?thesis
      by (subst backtrack.simps) simp
  next
    case False
    with 1(2) show ?thesis
      by (subst backtrack.simps) auto
  qed
qed

text \<open>The invariant holds at the start and after every round.\<close>

lemma length_joined_prefix:
  "length (strings_Join xs ''/'') \<le> length (strings_Join (xs @ ys) ''/'')"
proof (induction ys rule: rev_induct)
  case Nil
  show ?case by simp
next
  case (snoc y ys)
  show ?case
  proof (cases "xs @ ys = []")
    case True
    then show ?thesis by simp
  next
    case False
    have "strings_Join ((xs @ ys) @ [y]) ''/'' = strings_Join (xs @ ys) ''/'' @ ''/'' @ y"
      using False by (simp only: strings_Join_snoc if_False)
    with snoc.IH show ?thesis by simp
  qed
qed

lemma length_joined_strict:
  assumes "ys \<noteq> []" and "\<forall>y\<in>set ys. y \<noteq> []"
  shows "length (strings_Join xs ''/'') < length (strings_Join (xs @ ys) ''/'')"
proof -
  from assms(1) obtain ys' y where ys: "ys = ys' @ [y]"
    by (cases ys rule: rev_cases) auto
  with assms(2) have y: "y \<noteq> []" by simp
  show ?thesis
  proof (cases "xs @ ys' = []")
    case True
    with y ys show ?thesis by simp
  next
    case False
    have "strings_Join ((xs @ ys') @ [y]) ''/'' = strings_Join (xs @ ys') ''/'' @ ''/'' @ y"
      using False by (simp only: strings_Join_snoc if_False)
    with length_joined_prefix [of xs ys'] ys show ?thesis by simp
  qed
qed

lemma dotdots_nonempty: "\<forall>s\<in>set (replicate k ''..''). s \<noteq> []"
  by (simp add: set_replicate_conv_if)

lemma nf_parts_nonempty:
  assumes "\<forall>s\<in>set segs. seg_ok s"
  shows "\<forall>s\<in>set (replicate k ''..'' @ segs). s \<noteq> []"
proof
  fix s assume "s \<in> set (replicate k ''..'' @ segs)"
  then have "s \<in> set (replicate k ''..'') \<or> s \<in> set segs"
    by (simp only: set_append Un_iff)
  then show "s \<noteq> []"
    using dotdots_nonempty [of k] assms seg_ok_nonempty by blast
qed

lemma nf_Nil: "nf [] 0"
  unfolding nf_def by (rule exI [of _ 0], rule exI [of _ "[]"]) simp

lemma nf_seg:
  assumes "nf out dd" and "seg_ok seg"
  shows "nf ((if length out \<noteq> 0 then out @ ''/'' else out) @ seg) dd"
proof -
  from assms(1) obtain k segs where ok: "\<forall>s\<in>set segs. seg_ok s"
    and out: "out = strings_Join (replicate k ''..'' @ segs) ''/''"
    and dd: "dd = length (strings_Join (replicate k ''..'') ''/'')"
    unfolding nf_def by blast
  have e: "out = [] \<longleftrightarrow> replicate k ''..'' @ segs = []"
    unfolding out by (rule strings_Join_eq_Nil [OF nf_parts_nonempty [OF ok]])
  have "(if length out \<noteq> 0 then out @ ''/'' else out) @ seg
        = strings_Join ((replicate k ''..'' @ segs) @ [seg]) ''/''"
  proof (cases "replicate k ''..'' @ segs = []")
    case True
    with e show ?thesis by (simp only: strings_Join_snoc) simp
  next
    case False
    with e have "out \<noteq> []" by simp
    with False out show ?thesis by (simp only: strings_Join_snoc) simp
  qed
  moreover have "\<forall>s\<in>set (segs @ [seg]). seg_ok s"
    using ok assms(2) by simp
  ultimately show ?thesis
    unfolding nf_def using dd by (intro exI [of _ k] exI [of _ "segs @ [seg]"]) simp
qed

lemma nf_dotdot:
  assumes "nf out dd" and "\<not> dd < length out"
  shows "nf ((if length out > 0 then out @ ''/'' else out) @ ''..'')
            (length ((if length out > 0 then out @ ''/'' else out) @ ''..''))"
proof -
  from assms(1) obtain k segs where ok: "\<forall>s\<in>set segs. seg_ok s"
    and out: "out = strings_Join (replicate k ''..'' @ segs) ''/''"
    and dd: "dd = length (strings_Join (replicate k ''..'') ''/'')"
    unfolding nf_def by blast
  have "segs = []"
  proof (rule ccontr)
    assume "segs \<noteq> []"
    moreover have "\<forall>s\<in>set segs. s \<noteq> []" using ok by (auto simp: seg_ok_def)
    ultimately have "dd < length out"
      unfolding out dd by (rule length_joined_strict)
    with assms(2) show False by simp
  qed
  with out have out': "out = strings_Join (replicate k ''..'') ''/''" by simp
  have e: "out = [] \<longleftrightarrow> replicate k ''..'' = []"
    unfolding out' by (rule strings_Join_eq_Nil [OF dotdots_nonempty])
  have "(if length out > 0 then out @ ''/'' else out) @ ''..''
        = strings_Join (replicate k ''..'' @ [''..'']) ''/''"
  proof (cases "replicate k ''..'' = []")
    case True
    with e show ?thesis by (simp only: strings_Join_snoc) simp
  next
    case False
    with e have "out \<noteq> []" by simp
    with False out' show ?thesis by (simp only: strings_Join_snoc) simp
  qed
  also have "replicate k ''..'' @ [''..''] = replicate (Suc k) ''..''"
    by (simp add: replicate_append_same)
  finally have "(if length out > 0 then out @ ''/'' else out) @ ''..''
        = strings_Join (replicate (Suc k) ''..'' @ []) ''/''"
    by simp
  then show ?thesis
    unfolding nf_def by (intro exI [of _ "Suc k"] exI [of _ "[]"]) simp
qed

lemma nf_backtrack:
  assumes "nf out dd" and "dd < length out"
  shows "nf (take (backtrack out dd (length out - 1)) out) dd"
proof -
  from assms(1) obtain k segs where ok: "\<forall>s\<in>set segs. seg_ok s"
    and out: "out = strings_Join (replicate k ''..'' @ segs) ''/''"
    and dd: "dd = length (strings_Join (replicate k ''..'') ''/'')"
    unfolding nf_def by blast
  have "segs \<noteq> []"
    using assms(2) out dd by auto
  then obtain segs' s where segs: "segs = segs' @ [s]"
    by (cases segs rule: rev_cases) auto
  with ok have s: "seg_ok s" and ok': "\<forall>s\<in>set segs'. seg_ok s" by simp_all
  from s have sne: "s \<noteq> []" and sns: "CHR ''/'' \<notin> set s" by (simp_all add: seg_ok_def)
  let ?P = "strings_Join (replicate k ''..'' @ segs') ''/''"
  have ddP: "dd \<le> length ?P"
    unfolding dd by (rule length_joined_prefix)
  show ?thesis
  proof (cases "replicate k ''..'' @ segs' = []")
    case True
    then have k: "replicate k ''..'' = []" and "segs' = []" by simp_all
    with out segs have o: "out = s" by simp
    from k dd have d0: "dd = 0" by simp
    have "backtrack out dd (length out - 1) = 0"
    proof (rule backtrack_stop)
      show "0 \<le> length out - 1" by simp
      show "dd \<le> 0" using d0 by simp
      show "0 = dd \<or> out ! 0 = CHR ''/''" using d0 by simp
      show "\<forall>i. 0 < i \<and> i \<le> length out - 1 \<longrightarrow> out ! i \<noteq> CHR ''/''"
        using sns sne unfolding o by (metis Suc_pred' length_greater_0_conv less_Suc_eq_le nth_mem)
    qed
    then show ?thesis
      using d0 nf_Nil by simp
  next
    case False
    have o: "out = ?P @ CHR ''/'' # s"
      unfolding out segs using False
      by (simp only: append_assoc [symmetric] strings_Join_snoc if_False) simp
    have "backtrack out dd (length out - 1) = length ?P"
    proof (rule backtrack_stop)
      show "length ?P \<le> length out - 1" unfolding o by simp
      show "dd \<le> length ?P" by (rule ddP)
      show "length ?P = dd \<or> out ! length ?P = CHR ''/''" unfolding o by simp
      show "\<forall>i. length ?P < i \<and> i \<le> length out - 1 \<longrightarrow> out ! i \<noteq> CHR ''/''"
      proof (intro allI impI)
        fix i assume i: "length ?P < i \<and> i \<le> length out - 1"
        then have "i - length ?P - 1 < length s" unfolding o by auto
        moreover have "out ! i = s ! (i - length ?P - 1)"
          using i unfolding o by (simp add: nth_append nth_Cons')
        ultimately show "out ! i \<noteq> CHR ''/''"
          using sns by (metis nth_mem)
      qed
    qed
    then have "take (backtrack out dd (length out - 1)) out = ?P"
      unfolding o by simp
    then show ?thesis
      unfolding nf_def using ok' dd by (intro exI [of _ k] exI [of _ segs']) simp
  qed
qed

lemma seg_ok_default:
  assumes "c \<noteq> CHR ''/''"
    and "\<not> (c = CHR ''.'' \<and> (rest = [] \<or> hd rest = CHR ''/''))"
    and "\<not> (c = CHR ''.'' \<and> rest \<noteq> [] \<and> hd rest = CHR ''.''
            \<and> (tl rest = [] \<or> hd (tl rest) = CHR ''/''))"
  shows "seg_ok (c # takeWhile (\<lambda>x. x \<noteq> CHR ''/'') rest)"
proof -
  let ?t = "takeWhile (\<lambda>x. x \<noteq> CHR ''/'') rest"
  have a: "CHR ''/'' \<notin> set (c # ?t)"
    using assms(1) by (auto dest: set_takeWhileD)
  have b: "c # ?t \<noteq> ''.''"
  proof
    assume "c # ?t = ''.''"
    then have "c = CHR ''.''" and "?t = []" by simp_all
    then have "c = CHR ''.'' \<and> (rest = [] \<or> hd rest = CHR ''/'')"
      by (cases rest) (auto split: if_splits)
    with assms(2) show False by simp
  qed
  have d: "c # ?t \<noteq> ''..''"
  proof
    assume "c # ?t = ''..''"
    then have c: "c = CHR ''.''" and t: "?t = ''.''" by simp_all
    from t obtain r rest' where r: "rest = r # rest'" by (cases rest) auto
    with t have r': "r = CHR ''.''" and t': "takeWhile (\<lambda>x. x \<noteq> CHR ''/'') rest' = []"
      by (auto split: if_splits)
    from t' have "rest' = [] \<or> hd rest' = CHR ''/''"
      by (cases rest') (auto split: if_splits)
    with c r r' assms(3) show False by simp
  qed
  from a b d show ?thesis
    by (simp add: seg_ok_def)
qed

text \<open>So it holds for the result.\<close>

lemma clean_loop_nf:
  "nf out dd \<Longrightarrow> \<exists>dd'. nf (clean_loop False p out dd) dd'"
proof (induction "False" p out dd rule: clean_loop.induct)
  case (1 out dotdot)
  then show ?case by auto
next
  case (2 c rest out dotdot)
  let ?c2 = "c = CHR ''.'' \<and> (rest = [] \<or> hd rest = CHR ''/'')"
  let ?c3 = "c = CHR ''.'' \<and> rest \<noteq> [] \<and> hd rest = CHR ''.''
              \<and> (tl rest = [] \<or> hd (tl rest) = CHR ''/'')"
  consider (slash) "c = CHR ''/''"
    | (dot) "c \<noteq> CHR ''/''" "?c2"
    | (popseg) "c \<noteq> CHR ''/''" "\<not> ?c2" "?c3" "dotdot < length out"
    | (climb) "c \<noteq> CHR ''/''" "\<not> ?c2" "?c3" "\<not> dotdot < length out"
    | (seg) "c \<noteq> CHR ''/''" "\<not> ?c2" "\<not> ?c3"
    by blast
  then show ?case
  proof cases
    case slash
    from "2.hyps"(1) [OF slash "2.prems"] slash show ?thesis
      by (subst clean_loop.simps(2)) simp
  next
    case dot
    from "2.hyps"(2) [OF dot "2.prems"] dot show ?thesis
      by (subst clean_loop.simps(2)) simp
  next
    case popseg
    have "nf (take (backtrack out dotdot (length out - 1)) out) dotdot"
      by (rule nf_backtrack [OF "2.prems" popseg(4)])
    from "2.hyps"(3) [OF popseg this]
    have "\<exists>dd'. nf (clean_loop False (tl rest)
                      (take (backtrack out dotdot (length out - 1)) out) dotdot) dd'" .
    moreover have "clean_loop False (c # rest) out dotdot
          = clean_loop False (tl rest) (take (backtrack out dotdot (length out - 1)) out) dotdot"
      by (subst clean_loop.simps(2)) (use popseg in simp)
    ultimately show ?thesis by simp
  next
    case climb
    have "nf ((if length out > 0 then out @ ''/'' else out) @ ''..'')
            (length ((if length out > 0 then out @ ''/'' else out) @ ''..''))"
      by (rule nf_dotdot [OF "2.prems" climb(4)])
    from "2.hyps"(4) [OF climb _ this]
    have "\<exists>dd'. nf (clean_loop False (tl rest)
                      ((if length out > 0 then out @ ''/'' else out) @ ''..'')
                      (length ((if length out > 0 then out @ ''/'' else out) @ ''..''))) dd'"
      by simp
    moreover have "clean_loop False (c # rest) out dotdot
          = clean_loop False (tl rest) ((if length out > 0 then out @ ''/'' else out) @ ''..'')
              (length ((if length out > 0 then out @ ''/'' else out) @ ''..''))"
      by (subst clean_loop.simps(2)) (use climb in simp)
    ultimately show ?thesis by simp
  next
    case seg
    have ok: "seg_ok (c # takeWhile (\<lambda>x. x \<noteq> CHR ''/'') rest)"
      by (rule seg_ok_default [OF seg])
    have "nf ((if length out \<noteq> 0 then out @ ''/'' else out)
              @ c # takeWhile (\<lambda>x. x \<noteq> CHR ''/'') rest) dotdot"
      by (rule nf_seg [OF "2.prems" ok])
    then have n: "nf ((if False \<and> length out \<noteq> 1 \<or> \<not> False \<and> length out \<noteq> 0
                        then out @ ''/'' else out)
              @ c # takeWhile (\<lambda>x. x \<noteq> CHR ''/'') rest) dotdot"
      by simp
    from "2.hyps"(6) [OF seg n]
    have "\<exists>dd'. nf (clean_loop False (dropWhile (\<lambda>x. x \<noteq> CHR ''/'') rest)
             ((if False \<and> length out \<noteq> 1 \<or> \<not> False \<and> length out \<noteq> 0
                 then out @ ''/'' else out)
              @ c # takeWhile (\<lambda>x. x \<noteq> CHR ''/'') rest) dotdot) dd'" .
    moreover have "clean_loop False (c # rest) out dotdot
          = clean_loop False (dropWhile (\<lambda>x. x \<noteq> CHR ''/'') rest)
             ((if False \<and> length out \<noteq> 1 \<or> \<not> False \<and> length out \<noteq> 0
                 then out @ ''/'' else out)
              @ c # takeWhile (\<lambda>x. x \<noteq> CHR ''/'') rest) dotdot"
      by (subst clean_loop.simps(2)) (simp only: seg if_False)
    ultimately show ?thesis by simp
  qed
qed

lemma normal_elem:
  assumes "normal ss" and "s \<in> set ss"
  shows "s = ''..'' \<or> seg_ok s"
proof -
  from assms(1) obtain k segs where ss: "ss = replicate k ''..'' @ segs"
    and ok: "\<forall>s\<in>set segs. seg_ok s"
    unfolding normal_def by blast
  from assms(2) have "s \<in> set (replicate k ''..'') \<or> s \<in> set segs"
    unfolding ss by (simp only: set_append Un_iff)
  then show ?thesis
    using ok by (auto simp only: set_replicate_conv_if split: if_splits)
qed

lemma joined_not_dot:
  assumes "normal ss"
  shows "strings_Join ss ''/'' \<noteq> ''.''"
proof (cases ss rule: rev_cases)
  case Nil
  then show ?thesis by simp
next
  case (snoc ss' s)
  show ?thesis
  proof (cases "ss' = []")
    case True
    from normal_elem [OF assms, of s] snoc have "s = ''..'' \<or> seg_ok s" by simp
    then have "s \<noteq> ''.''" by (auto simp: seg_ok_def)
    with True snoc show ?thesis by simp
  next
    case False
    then have "strings_Join (ss' @ [s]) ''/'' = strings_Join ss' ''/'' @ ''/'' @ s"
      by (simp only: strings_Join_snoc if_False)
    moreover have "strings_Join ss' ''/'' \<noteq> []"
      using False normal_nonempty [OF assms] snoc by (simp add: strings_Join_eq_Nil)
    ultimately show ?thesis
      unfolding snoc by (cases "strings_Join ss' ''/''") simp_all
  qed
qed

text \<open>The result of \<open>path.Clean\<close> on a path without a leading slash is \<open>"."\<close> or
  a cleaned relative path.\<close>

lemma Clean_not_rooted:
  assumes "x = [] \<or> hd x \<noteq> CHR ''/''"
  shows "Clean x = ''.'' \<or> (\<exists>ss. normal ss \<and> ss \<noteq> [] \<and> Clean x = strings_Join ss ''/'')"
proof (cases "x = []")
  case True
  then show ?thesis by (simp add: Clean_def)
next
  case False
  with assms have h: "hd x \<noteq> CHR ''/''" by simp
  from clean_loop_nf [OF nf_Nil, of x] obtain dd' where "nf (clean_loop False x [] 0) dd'"
    by blast
  then obtain k segs where ok: "\<forall>s\<in>set segs. seg_ok s"
    and out: "clean_loop False x [] 0 = strings_Join (replicate k ''..'' @ segs) ''/''"
    unfolding nf_def by blast
  have n: "normal (replicate k ''..'' @ segs)"
    unfolding normal_def using ok by blast
  have c: "Clean x = (if clean_loop False x [] 0 = [] then ''.'' else clean_loop False x [] 0)"
    using False h by (simp add: Clean_def)
  show ?thesis
  proof (cases "clean_loop False x [] 0 = []")
    case True
    with c show ?thesis by simp
  next
    case False
    with out have "replicate k ''..'' @ segs \<noteq> []" by auto
    with n c out False show ?thesis by auto
  qed
qed

text \<open>On a path with a leading slash the result keeps the leading slash.\<close>

lemma hd_take_pos: "0 < n \<Longrightarrow> xs \<noteq> [] \<Longrightarrow> take n xs \<noteq> [] \<and> hd (take n xs) = hd xs"
  by (cases xs; cases n) simp_all

lemma clean_loop_rooted:
  "out \<noteq> [] \<Longrightarrow> hd out = CHR ''/'' \<Longrightarrow>
   clean_loop True p out 1 \<noteq> [] \<and> hd (clean_loop True p out 1) = CHR ''/''"
proof (induction "True" p out "1::nat" rule: clean_loop.induct)
  case (1 out)
  then show ?case by simp
next
  case (2 c rest out)
  let ?c2 = "c = CHR ''.'' \<and> (rest = [] \<or> hd rest = CHR ''/'')"
  let ?c3 = "c = CHR ''.'' \<and> rest \<noteq> [] \<and> hd rest = CHR ''.''
              \<and> (tl rest = [] \<or> hd (tl rest) = CHR ''/'')"
  consider (slash) "c = CHR ''/''"
    | (dot) "c \<noteq> CHR ''/''" "?c2"
    | (popseg) "c \<noteq> CHR ''/''" "\<not> ?c2" "?c3" "1 < length out"
    | (climb) "c \<noteq> CHR ''/''" "\<not> ?c2" "?c3" "\<not> 1 < length out"
    | (seg) "c \<noteq> CHR ''/''" "\<not> ?c2" "\<not> ?c3"
    by blast
  then show ?case
  proof cases
    case slash
    from "2.hyps"(1) [OF slash "2.prems"] slash show ?thesis
      by (subst (1 2) clean_loop.simps(2)) simp
  next
    case dot
    from "2.hyps"(2) [OF dot "2.prems"] dot show ?thesis
      by (subst (1 2) clean_loop.simps(2)) simp
  next
    case popseg
    let ?o = "take (backtrack out 1 (length out - 1)) out"
    have "1 \<le> backtrack out 1 (length out - 1)"
      using popseg(4) by (intro backtrack_ge) simp
    then have "?o \<noteq> [] \<and> hd ?o = hd out"
      using "2.prems"(1) by (intro hd_take_pos) simp_all
    with "2.prems"(2) have o: "?o \<noteq> []" "hd ?o = CHR ''/''" by simp_all
    have e: "clean_loop True (c # rest) out 1 = clean_loop True (tl rest) ?o 1"
      by (subst clean_loop.simps(2)) (use popseg in simp)
    from "2.hyps"(3) [OF popseg o] show ?thesis
      unfolding e .
  next
    case climb
    have e: "clean_loop True (c # rest) out 1 = clean_loop True (tl rest) out 1"
      by (subst clean_loop.simps(2)) (use climb in simp)
    from "2.hyps"(5) [OF climb _ "2.prems"] show ?thesis
      unfolding e by simp
  next
    case seg
    let ?o = "(if True \<and> length out \<noteq> 1 \<or> \<not> True \<and> length out \<noteq> 0
                 then out @ ''/'' else out)
              @ c # takeWhile (\<lambda>x. x \<noteq> CHR ''/'') rest"
    have o: "?o \<noteq> []" "hd ?o = CHR ''/''"
      using "2.prems" by (cases out; simp)+
    have e: "clean_loop True (c # rest) out 1
             = clean_loop True (dropWhile (\<lambda>x. x \<noteq> CHR ''/'') rest) ?o 1"
      by (subst clean_loop.simps(2)) (simp only: seg if_False)
    from "2.hyps"(6) [OF seg o] show ?thesis
      unfolding e .
  qed
qed

lemma Clean_rooted:
  assumes "x \<noteq> []" and "hd x = CHR ''/''"
  shows "Clean x \<noteq> [] \<and> hd (Clean x) = CHR ''/''"
proof -
  have "clean_loop True (tl x) ''/'' 1 \<noteq> [] \<and> hd (clean_loop True (tl x) ''/'' 1) = CHR ''/''"
    by (rule clean_loop_rooted) simp_all
  with assms show ?thesis
    by (simp add: Clean_def)
qed

text \<open>What \<open>path.Dir\<close> returns.\<close>

lemma Split_fst_take: "\<exists>n. fst (Split p) = take n p"
  by (auto simp: Split_def Let_def)

lemma LastIndexByte_found:
  assumes "c \<in> set s"
  shows "0 \<le> LastIndexByte s c"
proof -
  have "length (takeWhile (\<lambda>x. x \<noteq> c) (rev s)) \<noteq> length (rev s)"
  proof
    assume "length (takeWhile (\<lambda>x. x \<noteq> c) (rev s)) = length (rev s)"
    then have "takeWhile (\<lambda>x. x \<noteq> c) (rev s) = rev s"
      by (metis length_append self_append_conv takeWhile_dropWhile_id add_cancel_right_right
                length_0_conv)
    then have "\<forall>x\<in>set (rev s). x \<noteq> c"
      by (simp add: takeWhile_eq_all_conv)
    with assms show False by auto
  qed
  moreover have "length (takeWhile (\<lambda>x. x \<noteq> c) (rev s)) \<le> length (rev s)"
    by (rule length_takeWhile_le)
  ultimately have "length (takeWhile (\<lambda>x. x \<noteq> c) (rev s)) < length s"
    by simp
  with assms show ?thesis
    by (simp add: LastIndexByte_def)
qed

lemma Dir_rooted:
  assumes "p \<noteq> []" and "hd p = CHR ''/''"
  shows "Dir p \<noteq> [] \<and> hd (Dir p) = CHR ''/''"
proof -
  from assms have "CHR ''/'' \<in> set p" by (cases p) simp_all
  then have "0 \<le> LastIndexByte p (CHR ''/'')" by (rule LastIndexByte_found)
  then have "0 < nat (LastIndexByte p (CHR ''/'') + 1)" by simp
  from hd_take_pos [OF this assms(1)] assms(2)
  have "fst (Split p) \<noteq> [] \<and> hd (fst (Split p)) = CHR ''/''"
    by (simp add: Split_def Let_def)
  then show ?thesis
    unfolding Dir_def by (intro Clean_rooted) simp_all
qed

lemma Dir_cases:
  "Dir n = ''.'' \<or> (\<exists>ss. normal ss \<and> ss \<noteq> [] \<and> Dir n = strings_Join ss ''/'') \<or>
   (n \<noteq> [] \<and> hd n = CHR ''/'' \<and> Dir n \<noteq> [] \<and> hd (Dir n) = CHR ''/'')"
proof (cases "n \<noteq> [] \<and> hd n = CHR ''/''")
  case True
  with Dir_rooted [of n] show ?thesis by simp
next
  case False
  obtain m where m: "fst (Split n) = take m n"
    using Split_fst_take by blast
  have "fst (Split n) = [] \<or> hd (fst (Split n)) \<noteq> CHR ''/''"
  proof (cases "take m n = []")
    case True
    with m show ?thesis by simp
  next
    case nonempty: False
    then have "0 < m" and "n \<noteq> []" by auto
    from hd_take_pos [OF this] False m show ?thesis by simp
  qed
  from Clean_not_rooted [OF this] show ?thesis
    unfolding Dir_def by blast
qed

text \<open>The loop \<open>for pth != "."\<close> does not end on a path with a leading slash,
  and ends on every other result of \<open>path.Dir\<close>.\<close>

lemma parentDirs_rooted:
  assumes "parentDirs p dirs = Some r"
  shows "\<not> (p \<noteq> [] \<and> hd p = CHR ''/'')"
proof (rule parentDirs.raw_induct [of "\<lambda>p ds r. \<not> (p \<noteq> [] \<and> hd p = CHR ''/'')" p dirs r])
  fix f :: "string \<Rightarrow> string list \<Rightarrow> string list option"
    and p :: string and ds r :: "string list"
  assume IH: "\<And>p ds r. f p ds = Some r \<Longrightarrow> \<not> (p \<noteq> [] \<and> hd p = CHR ''/'')"
  assume step: "(if p \<noteq> ''.'' then f (Dir p) (map_set ds p) else Some ds) = Some r"
  show "\<not> (p \<noteq> [] \<and> hd p = CHR ''/'')"
  proof
    assume rooted: "p \<noteq> [] \<and> hd p = CHR ''/''"
    then have "p \<noteq> ''.''" by auto
    with step have "f (Dir p) (map_set ds p) = Some r" by simp
    from IH [OF this] Dir_rooted [of p] rooted show False by simp
  qed
next
  show "parentDirs p dirs = Some r" by (rule assms)
qed

lemma parentDirs_normal:
  "normal ss \<Longrightarrow> ss \<noteq> [] \<Longrightarrow> \<exists>r. parentDirs (strings_Join ss ''/'') dirs = Some r"
proof (induction ss arbitrary: dirs rule: rev_induct)
  case Nil
  then show ?case by simp
next
  case (snoc s ss)
  have nd: "strings_Join (ss @ [s]) ''/'' \<noteq> ''.''"
    by (rule joined_not_dot [OF snoc.prems(1)])
  have n: "normal ss"
    by (rule normal_prefix [OF snoc.prems(1)])
  show ?case
  proof (cases "ss = []")
    case True
    have "CHR ''/'' \<notin> set s"
      using normal_nonempty [OF snoc.prems(1), of s] by simp
    then have "Dir s = ''.''" by (rule Dir_no_slash)
    with True nd show ?thesis
      by (subst parentDirs.simps) (simp add: parentDirs.simps [of "''.''"])
  next
    case False
    from snoc.IH [OF n False]
    obtain r where "parentDirs (strings_Join ss ''/'') (map_set dirs (strings_Join (ss @ [s]) ''/'')) = Some r"
      by blast
    with nd Dir_joined_snoc [OF snoc.prems(1) False] show ?thesis
      by (subst parentDirs.simps) simp
  qed
qed

lemma parentDirs_unrooted:
  assumes "n = [] \<or> hd n \<noteq> CHR ''/''"
  shows "\<exists>r. parentDirs (Dir n) dirs = Some r"
proof -
  from Dir_cases [of n] assms
  consider "Dir n = ''.''" | ss where "normal ss" "ss \<noteq> []" "Dir n = strings_Join ss ''/''"
    by auto
  then show ?thesis
  proof cases
    case 1
    then show ?thesis by (simp add: parentDirs.simps [of "''.''"])
  next
    case 2
    with parentDirs_normal [OF 2(1,2), of dirs] show ?thesis by simp
  qed
qed

text \<open>The loop over the entries.\<close>

lemma allDirs_each:
  "allDirs files dirs = Some r \<Longrightarrow> f \<in> set files \<Longrightarrow>
   \<exists>dirs' r'. parentDirs (Dir (File_Name f)) dirs' = Some r'"
proof (induction files arbitrary: dirs)
  case Nil
  then show ?case by simp
next
  case (Cons g gs)
  from Cons.prems(1) obtain ds' where p: "parentDirs (Dir (File_Name g)) dirs = Some ds'"
    and a: "allDirs gs ds' = Some r"
    by (auto split: option.splits)
  show ?case
  proof (cases "f = g")
    case True
    with p show ?thesis by blast
  next
    case False
    with Cons.prems(2) have "f \<in> set gs" by simp
    from Cons.IH [OF a this] show ?thesis .
  qed
qed

lemma allDirs_unrooted:
  "\<forall>f\<in>set files. File_Name f = [] \<or> hd (File_Name f) \<noteq> CHR ''/'' \<Longrightarrow>
   \<exists>r. allDirs files dirs = Some r"
proof (induction files arbitrary: dirs)
  case Nil
  show ?case by simp
next
  case (Cons g gs)
  from Cons.prems have "File_Name g = [] \<or> hd (File_Name g) \<noteq> CHR ''/''" by simp
  from parentDirs_unrooted [OF this, of dirs]
  obtain ds' where p: "parentDirs (Dir (File_Name g)) dirs = Some ds'" by blast
  from Cons.prems have "\<forall>f\<in>set gs. File_Name f = [] \<or> hd (File_Name f) \<noteq> CHR ''/''"
    by simp
  from Cons.IH [OF this, of ds'] p show ?case by simp
qed

section \<open>When \<open>PlanChanges\<close> returns\<close>

text \<open>\<open>PlanChanges\<close> returns the plan of an archive exactly when no entry name
  begins with a slash; on a name that does, \<open>path.Dir\<close> arrives at \<open>"/"\<close> and stays
  there.\<close>

lemma PlanChanges_returns_iff:
  assumes "Type sp = ''curse'' \<or> Type sp = ''wowace''" and "zipData sp = Some files"
  shows "(\<exists>cs. PlanChanges rng base sp = ([], Returns cs)) \<longleftrightarrow>
         (\<forall>f\<in>set files. File_Name f = [] \<or> hd (File_Name f) \<noteq> CHR ''/'')"
proof
  assume "\<exists>cs. PlanChanges rng base sp = ([], Returns cs)"
  then obtain cs where "PlanChanges rng base sp = ([], Returns cs)" by blast
  from PlanChanges_archive [OF assms this]
  obtain dirs where a: "allDirs files [] = Some dirs"
    by (auto simp: dirSl_def)
  show "\<forall>f\<in>set files. File_Name f = [] \<or> hd (File_Name f) \<noteq> CHR ''/''"
  proof
    fix f assume "f \<in> set files"
    from allDirs_each [OF a this]
    obtain dirs' r' where "parentDirs (Dir (File_Name f)) dirs' = Some r'"
      by blast
    from parentDirs_rooted [OF this] Dir_rooted [of "File_Name f"]
    show "File_Name f = [] \<or> hd (File_Name f) \<noteq> CHR ''/''"
      by blast
  qed
next
  assume "\<forall>f\<in>set files. File_Name f = [] \<or> hd (File_Name f) \<noteq> CHR ''/''"
  from allDirs_unrooted [OF this, of "[]"]
  obtain dirs where "allDirs files [] = Some dirs" by blast
  then have "dirSl rng files = Some (sort (rng dirs))"
    by (simp add: dirSl_def)
  with assms show "\<exists>cs. PlanChanges rng base sp = ([], Returns cs)"
    by (auto simp: PlanChanges_def)
qed

lemma PlanChanges_archive_result:
  assumes "Type sp = ''curse'' \<or> Type sp = ''wowace''" and "zipData sp = Some files"
  shows "PlanChanges rng base sp = ([], Diverges) \<or>
         (\<exists>cs. PlanChanges rng base sp = ([], Returns cs))"
  using assms by (auto simp: PlanChanges_def split: option.splits)


text \<open>On an archive with an entry whose name begins with a slash, \<open>PlanChanges\<close>
  does not return.\<close>

lemma PlanChanges_rooted_diverges:
  assumes "Type sp = ''curse'' \<or> Type sp = ''wowace''" and "zipData sp = Some files"
    and "f \<in> set files" and "File_Name f \<noteq> []" and "hd (File_Name f) = CHR ''/''"
  shows "PlanChanges rng base sp = ([], Diverges)"
proof -
  from assms(3-5) have "\<not> (\<forall>f\<in>set files. File_Name f = [] \<or> hd (File_Name f) \<noteq> CHR ''/'')"
    by blast
  with PlanChanges_returns_iff [OF assms(1,2), of rng base]
  have "\<not> (\<exists>cs. PlanChanges rng base sp = ([], Returns cs))" by simp
  with PlanChanges_archive_result [OF assms(1,2), of rng base] show ?thesis by blast
qed

section \<open>\<open>Download\<close>, then \<open>PlanChanges\<close>\<close>








section \<open>\<open>path.Clean\<close> on a path continued after a slash\<close>





section \<open>Where the paths of a plan lead\<close>




















section \<open>Parents before children\<close>

text \<open>Entry names inside the archive root, and outside it.\<close>

lemma inside_root_examples:
  "inside_root ''Foo/a.lua''"
  "inside_root ''readme.txt''"
  "inside_root ''Foo/../a.lua''"
  "\<not> inside_root ''../../f''"
  "\<not> inside_root ''Foo/../../f''"
  "\<not> inside_root ''/abs/f''"
  by code_simp+










end
